theory Spec2Isabelle
  imports Main
begin

section \<open>Python values used by the line mapping tool\<close>

text \<open>
  The tool is Python. A Python \<open>str\<close> is modelled as a \<^typ>\<open>string\<close>, each
  \<^typ>\<open>char\<close> standing for one code point below 256. Python integers that can be
  negative (line numbers with the sentinel \<open>-1\<close>, table entries) are \<^typ>\<open>int\<close>;
  list indices, which the code keeps non-negative, are \<^typ>\<open>nat\<close>. An exception is a
  value: every function that can raise returns \<open>py_error + 'a\<close>, \<open>Inl\<close> being the raise.
\<close>

datatype py_error = IndexError | TypeError

text \<open>\<open>xs[i]\<close> for a non-negative index: IndexError out of range.\<close>

definition py_get :: "'a list \<Rightarrow> nat \<Rightarrow> py_error + 'a" where
  "py_get xs i = (if i < length xs then Inr (xs ! i) else Inl IndexError)"

text \<open>\<open>xs[i] = v\<close> for a non-negative index: IndexError out of range.\<close>

definition py_set :: "'a list \<Rightarrow> nat \<Rightarrow> 'a \<Rightarrow> py_error + 'a list" where
  "py_set xs i v = (if i < length xs then Inr (xs[i := v]) else Inl IndexError)"

text \<open>
  \<open>for k in ks: s = body(k, s)\<close>: the loop stops at the first exception.
\<close>

fun for_loop :: "nat list \<Rightarrow> (nat \<Rightarrow> 's \<Rightarrow> py_error + 's) \<Rightarrow> 's \<Rightarrow> py_error + 's" where
  "for_loop [] body s = Inr s"
| "for_loop (k # ks) body s =
     (case body k s of Inl e \<Rightarrow> Inl e | Inr s' \<Rightarrow> for_loop ks body s')"

section \<open>String operations\<close>

text \<open>
  \<open>line.find(sub)\<close>: the lowest index at which \<open>sub\<close> occurs in \<open>line\<close>;
  \<open>None\<close> stands for Python's \<open>-1\<close>.
\<close>

fun find_sub :: "string \<Rightarrow> string \<Rightarrow> nat option" where
  "find_sub sub [] = (if sub = [] then Some 0 else None)"
| "find_sub sub (c # cs) =
     (if take (length sub) (c # cs) = sub then Some 0
      else map_option Suc (find_sub sub cs))"

text \<open>\<open>line.find(sub, start)\<close> for \<open>start \<ge> 0\<close>.\<close>

definition str_find :: "string \<Rightarrow> string \<Rightarrow> nat \<Rightarrow> nat option" where
  "str_find sub line start =
     (if start \<le> length line
      then map_option (\<lambda>k. start + k) (find_sub sub (drop start line))
      else None)"

text \<open>\<open>sub in line\<close>.\<close>

definition str_in :: "string \<Rightarrow> string \<Rightarrow> bool" where
  "str_in sub line = (find_sub sub line \<noteq> None)"

text \<open>\<open>line.split(sep, 1)[0]\<close>: the text before the first \<open>sep\<close>, all of it without one.\<close>

definition split_head :: "string \<Rightarrow> string \<Rightarrow> string" where
  "split_head sep line =
     (case find_sub sep line of None \<Rightarrow> line | Some k \<Rightarrow> take k line)"

text \<open>
  \<open>c.isspace()\<close> for the code points below 256: tab to carriage return, the four
  separators 28 to 31, the space, NEL (133) and the no-break space (160).
\<close>

definition isspace :: "char \<Rightarrow> bool" where
  "isspace c =
     (let k = of_char c :: nat
      in (9 \<le> k \<and> k \<le> 13) \<or> (28 \<le> k \<and> k \<le> 32) \<or> k = 133 \<or> k = 160)"

text \<open>\<open>line.strip()\<close>.\<close>

definition str_strip :: "string \<Rightarrow> string" where
  "str_strip s = rev (dropWhile isspace (rev (dropWhile isspace s)))"

text \<open>
  \<open>c.isalnum()\<close> for the code points below 256: the ASCII digits and letters and the
  Latin-1 letters and numeric characters.
\<close>

definition isalnum :: "char \<Rightarrow> bool" where
  "isalnum c =
     (let k = of_char c :: nat
      in (48 \<le> k \<and> k \<le> 57) \<or> (65 \<le> k \<and> k \<le> 90) \<or> (97 \<le> k \<and> k \<le> 122)
         \<or> k = 170 \<or> k = 178 \<or> k = 179 \<or> k = 181 \<or> k = 185 \<or> k = 186
         \<or> (188 \<le> k \<and> k \<le> 190) \<or> (192 \<le> k \<and> k \<le> 214)
         \<or> (216 \<le> k \<and> k \<le> 246) \<or> (248 \<le> k \<and> k \<le> 255))"

section \<open>normalize\_line\<close>

lemma find_sub_bound: "find_sub sub s = Some k \<Longrightarrow> k + length sub \<le> length s"
proof (induction s arbitrary: k)
  case Nil
  then show ?case by (simp split: if_splits)
next
  case (Cons c cs)
  show ?case
  proof (cases "take (length sub) (c # cs) = sub")
    case True
    then have "length (take (length sub) (c # cs)) = length sub"
      by simp
    then have "length sub \<le> length (c # cs)"
      by (simp only: length_take)
    with True Cons.prems show ?thesis by simp
  next
    case False
    with Cons.prems obtain k' where "find_sub sub cs = Some k'" "k = Suc k'"
      by auto
    with Cons.IH show ?thesis by fastforce
  qed
qed

lemma str_find_bound:
  "str_find sub line start = Some k \<Longrightarrow> start \<le> k \<and> k + length sub \<le> length line"
  by (auto simp: str_find_def split: if_splits dest!: find_sub_bound)

text \<open>
  The loop of \<open>normalize_line\<close> that removes the \<open>/* ... */\<close> spans:
  \<^verbatim>\<open>
  while '/*' in line and '*/' in line:
      start = line.find('/*')
      end = line.find('*/', start + 2)
      if end == -1:
          break
      line = line[:start] + line[end + 2:]
  \<close>
  Under the loop condition \<open>line.find('/*')\<close> is never \<open>-1\<close>
  (lemma \<open>find_open_defined\<close> below), so the \<open>None\<close> branch for \<open>start\<close> is not
  reachable.
\<close>

function strip_block_comments :: "string \<Rightarrow> string" where
  "strip_block_comments line =
     (if str_in ''/*'' line \<and> str_in ''*/'' line then
        (case str_find ''/*'' line 0 of
           None \<Rightarrow> line
         | Some start \<Rightarrow>
             (case str_find ''*/'' line (start + 2) of
                None \<Rightarrow> line
              | Some end \<Rightarrow> strip_block_comments (take start line @ drop (end + 2) line)))
      else line)"
  by pat_completeness auto
termination
proof (relation "measure length")
  show "wf (measure length)" by simp
next
  fix line :: string and start e
  assume "str_find ''*/'' line (start + 2) = Some e"
  then have "start + 2 \<le> e" "e + 2 \<le> length line"
    by (auto dest: str_find_bound)
  then show "(take start line @ drop (e + 2) line, line) \<in> measure length"
    by simp
qed

definition normalize_line :: "string \<Rightarrow> string" where
  "normalize_line line =
     (let line1 = (if str_in ''//'' line then split_head ''//'' line else line)
      in str_strip (strip_block_comments line1))"

section \<open>map\_lines: the LCS table\<close>

text \<open>
  The table \<open>dp\<close> is a list of rows, each row a list of Python integers. The rows
  are built by a list comprehension, so no two rows are the same object and an update of a
  cell changes one row only.
\<close>

type_synonym table = "int list list"

text \<open>\<open>dp[i][j]\<close>.\<close>

definition dp_get :: "table \<Rightarrow> nat \<Rightarrow> nat \<Rightarrow> py_error + int" where
  "dp_get dp i j = (case py_get dp i of Inl e \<Rightarrow> Inl e | Inr row \<Rightarrow> py_get row j)"

text \<open>\<open>dp[i][j] = v\<close>.\<close>

definition dp_set :: "table \<Rightarrow> nat \<Rightarrow> nat \<Rightarrow> int \<Rightarrow> py_error + table" where
  "dp_set dp i j v =
     (case py_get dp i of
        Inl e \<Rightarrow> Inl e
      | Inr row \<Rightarrow>
          (case py_set row j v of Inl e \<Rightarrow> Inl e | Inr row' \<Rightarrow> Inr (dp[i := row'])))"

text \<open>
  The body of the inner loop, for one \<open>j\<close>:
  \<^verbatim>\<open>
  if oi == new_lines[j]:
      dp[i + 1][j + 1] = dp[i][j] + 1
  else:
      dp[i + 1][j + 1] = max(dp[i][j + 1], dp[i + 1][j])
  \<close>
\<close>

definition dp_cell :: "string \<Rightarrow> string list \<Rightarrow> nat \<Rightarrow> nat \<Rightarrow> table \<Rightarrow> py_error + table" where
  "dp_cell oi new_lines i j dp =
     (case py_get new_lines j of
        Inl e \<Rightarrow> Inl e
      | Inr nj \<Rightarrow>
          if oi = nj then
            (case dp_get dp i j of
               Inl e \<Rightarrow> Inl e
             | Inr d \<Rightarrow> dp_set dp (i + 1) (j + 1) (d + 1))
          else
            (case dp_get dp i (j + 1) of
               Inl e \<Rightarrow> Inl e
             | Inr a \<Rightarrow>
                 (case dp_get dp (i + 1) j of
                    Inl e \<Rightarrow> Inl e
                  | Inr b \<Rightarrow> dp_set dp (i + 1) (j + 1) (max a b))))"

text \<open>
  The body of the outer loop, for one \<open>i\<close>: \<open>oi = original_lines[i]\<close>, then the
  inner loop \<open>for j in range(m)\<close>.
\<close>

definition dp_row :: "string list \<Rightarrow> string list \<Rightarrow> nat \<Rightarrow> table \<Rightarrow> py_error + table" where
  "dp_row original_lines new_lines i dp =
     (case py_get original_lines i of
        Inl e \<Rightarrow> Inl e
      | Inr oi \<Rightarrow> for_loop [0..<length new_lines] (dp_cell oi new_lines i) dp)"

text \<open>
  \<open>dp = [[0] * (m + 1) for _ in range(n + 1)]\<close>, then \<open>for i in range(n)\<close>.
\<close>

definition build_dp :: "string list \<Rightarrow> string list \<Rightarrow> py_error + table" where
  "build_dp original_lines new_lines =
     (let n = length original_lines; m = length new_lines
      in for_loop [0..<n] (dp_row original_lines new_lines)
           (replicate (n + 1) (replicate (m + 1) 0)))"

section \<open>map\_lines: backtracking\<close>

text \<open>
  An entry of \<open>ops\<close> is the tuple \<open>(kind, oi, nj)\<close> with \<open>kind\<close> one of the strings
  \<open>"match"\<close>, \<open>"ins"\<close>, \<open>"del"\<close>.
\<close>

type_synonym edit_op = "string \<times> int \<times> int"

text \<open>
  The first test of the loop body:
  \<open>i > 0 and j > 0 and original_lines[i - 1] == new_lines[j - 1]\<close>. The \<open>and\<close>
  is short-circuit: the lists are read only when both indices are positive.
\<close>

definition lines_match :: "string list \<Rightarrow> string list \<Rightarrow> nat \<Rightarrow> nat \<Rightarrow> py_error + bool" where
  "lines_match original_lines new_lines i j =
     (if i > 0 \<and> j > 0 then
        (case py_get original_lines (i - 1) of
           Inl e \<Rightarrow> Inl e
         | Inr a \<Rightarrow>
             (case py_get new_lines (j - 1) of
                Inl e \<Rightarrow> Inl e
              | Inr b \<Rightarrow> Inr (a = b)))
      else Inr False)"

text \<open>
  The second test: \<open>j > 0 and (i == 0 or dp[i][j - 1] >= dp[i - 1][j])\<close>, short-circuit
  again: the table is read only when \<open>j > 0\<close> and \<open>i \<noteq> 0\<close>.
\<close>

definition prefers_insert :: "table \<Rightarrow> nat \<Rightarrow> nat \<Rightarrow> py_error + bool" where
  "prefers_insert dp i j =
     (if j > 0 then
        (if i = 0 then Inr True
         else
           (case dp_get dp i (j - 1) of
              Inl e \<Rightarrow> Inl e
            | Inr a \<Rightarrow>
                (case dp_get dp (i - 1) j of
                   Inl e \<Rightarrow> Inl e
                 | Inr b \<Rightarrow> Inr (a \<ge> b))))
      else Inr False)"

lemma lines_match_pos: "lines_match original_lines new_lines i j = Inr True \<Longrightarrow> i > 0 \<and> j > 0"
  by (simp add: lines_match_def split: if_splits)

lemma prefers_insert_pos: "prefers_insert dp i j = Inr True \<Longrightarrow> j > 0"
  by (simp add: prefers_insert_def split: if_splits)

lemma prefers_delete_pos:
  "prefers_insert dp i j = Inr False \<Longrightarrow> i > 0 \<or> j > 0 \<Longrightarrow> i > 0"
  by (simp add: prefers_insert_def split: if_splits)

text \<open>
  The loop \<open>while i > 0 or j > 0\<close>, started at \<open>i, j = n, m\<close> with \<open>ops = []\<close>.
  The indices stay non-negative: \<open>i\<close> is decremented only when \<open>i > 0\<close> (lemmas
  \<open>lines_match_pos\<close> and \<open>prefers_delete_pos\<close>) and \<open>j\<close> only when \<open>j > 0\<close>
  (lemmas \<open>lines_match_pos\<close> and \<open>prefers_insert_pos\<close>).
\<close>

function backtrack ::
  "table \<Rightarrow> string list \<Rightarrow> string list \<Rightarrow> nat \<Rightarrow> nat \<Rightarrow> edit_op list \<Rightarrow> py_error + edit_op list" where
  "backtrack dp original_lines new_lines i j ops =
     (if i > 0 \<or> j > 0 then
        (case lines_match original_lines new_lines i j of
           Inl e \<Rightarrow> Inl e
         | Inr is_match \<Rightarrow>
             if is_match then
               backtrack dp original_lines new_lines (i - 1) (j - 1)
                 (ops @ [(''match'', int i, int j)])
             else
               (case prefers_insert dp i j of
                  Inl e \<Rightarrow> Inl e
                | Inr is_ins \<Rightarrow>
                    if is_ins then
                      backtrack dp original_lines new_lines i (j - 1)
                        (ops @ [(''ins'', - 1, int j)])
                    else
                      backtrack dp original_lines new_lines (i - 1) j
                        (ops @ [(''del'', int i, - 1)])))
      else Inr ops)"
  by pat_completeness auto
termination
proof (relation "measure (\<lambda>(dp, original_lines, new_lines, i, j, ops). i + j)")
  show "wf (measure (\<lambda>(dp, original_lines, new_lines, i, j, ops). i + j))"
    by simp
qed (auto dest: lines_match_pos prefers_insert_pos prefers_delete_pos)

text \<open>
  The conversion of one entry of \<open>ops\<close> to a pair
  \<open>(orig_line_number, new_line_number)\<close>.
\<close>

definition to_mapping :: "edit_op \<Rightarrow> int \<times> int" where
  "to_mapping op =
     (case op of (kind, oi, nj) \<Rightarrow>
        if kind = ''match'' then (oi, nj)
        else if kind = ''del'' then (oi, - 1)
        else (- 1, nj))"

definition map_lines :: "string list \<Rightarrow> string list \<Rightarrow> py_error + (int \<times> int) list" where
  "map_lines original_lines new_lines =
     (let n = length original_lines; m = length new_lines
      in case build_dp original_lines new_lines of
           Inl e \<Rightarrow> Inl e
         | Inr dp \<Rightarrow>
             (case backtrack dp original_lines new_lines n m [] of
                Inl e \<Rightarrow> Inl e
              | Inr ops \<Rightarrow> Inr (map to_mapping (rev ops))))"

section \<open>The summary counts and the output file name of main\<close>

text \<open>
  The three counts \<open>main\<close> prints for a version, each a
  \<open>sum(1 for o, n in mappings if ...)\<close>.
\<close>

definition matched_count :: "(int \<times> int) list \<Rightarrow> int" where
  "matched_count mappings =
     sum_list (map (\<lambda>_. 1) (filter (\<lambda>(ol, nl). ol > 0 \<and> nl > 0) mappings))"

definition removed_count :: "(int \<times> int) list \<Rightarrow> int" where
  "removed_count mappings =
     sum_list (map (\<lambda>_. 1) (filter (\<lambda>(ol, nl). ol > 0 \<and> nl = - 1) mappings))"

definition added_count :: "(int \<times> int) list \<Rightarrow> int" where
  "added_count mappings =
     sum_list (map (\<lambda>_. 1) (filter (\<lambda>(ol, nl). ol = - 1 \<and> nl > 0) mappings))"

text \<open>
  The output file name:
  \<^verbatim>\<open>
  safe_test = "".join(c if c.isalnum() or c in "-_" else "_" for c in test_name)
  if not safe_test:
      safe_test = "TEST"
  output_filename = f"{safe_test}.xml"
  \<close>
\<close>

definition safe_test :: "string \<Rightarrow> string" where
  "safe_test test_name =
     (let joined = map (\<lambda>c. if isalnum c \<or> c = CHR ''-'' \<or> c = CHR ''_'' then c else CHR ''_'') test_name
      in if joined = [] then ''TEST'' else joined)"

definition output_filename :: "string \<Rightarrow> string" where
  "output_filename test_name = safe_test test_name @ ''.xml''"

section \<open>The earlier version of the tool\<close>

text \<open>
  In \<open>appVersion2.py\<close> the function \<open>map_lines\<close> ends after the two nested iterations that
  fill the table, whose text is that of \<open>build_dp\<close> above. A Python function that
  ends without a \<open>return\<close> statement returns \<open>None\<close>.
\<close>

datatype py_value = PyNone | PyMappings "(int \<times> int) list"

definition map_lines_v2 :: "string list \<Rightarrow> string list \<Rightarrow> py_error + py_value" where
  "map_lines_v2 original_lines new_lines =
     (case build_dp original_lines new_lines of
        Inl e \<Rightarrow> Inl e
      | Inr dp \<Rightarrow> Inr PyNone)"

text \<open>
  The count of \<open>main\<close> in that file,
  \<open>sum(1 for (_, new_num) in mappings if new_num != -1)\<close>: iterating \<open>None\<close> raises
  TypeError.
\<close>

definition matched_v2 :: "py_value \<Rightarrow> py_error + int" where
  "matched_v2 mappings =
     (case mappings of
        PyNone \<Rightarrow> Inl TypeError
      | PyMappings ms \<Rightarrow>
          Inr (sum_list (map (\<lambda>_. 1) (filter (\<lambda>(old_num, new_num). new_num \<noteq> - 1) ms))))"

text \<open>
  One round of the loop over the versions in that \<open>main\<close>:
  \<open>mappings = map_lines(original_lines, new_lines)\<close>, then the count.
\<close>

definition version_step_v2 :: "string list \<Rightarrow> string list \<Rightarrow> py_error + int" where
  "version_step_v2 original_lines new_lines =
     (case map_lines_v2 original_lines new_lines of
        Inl e \<Rightarrow> Inl e
      | Inr mappings \<Rightarrow> matched_v2 mappings)"

section \<open>Notions used in the statements and proofs\<close>

text \<open>
  The line numbers on each side of a mapping list, the sentinel \<open>-1\<close> left out, in the
  order of the list.
\<close>

definition orig_numbers :: "(int \<times> int) list \<Rightarrow> int list" where
  "orig_numbers ms = filter (\<lambda>v. v \<noteq> - 1) (map fst ms)"

definition new_numbers :: "(int \<times> int) list \<Rightarrow> int list" where
  "new_numbers ms = filter (\<lambda>v. v \<noteq> - 1) (map snd ms)"

text \<open>
  The three forms of a pair: both sides positive (matched), new side \<open>-1\<close> (removed),
  original side \<open>-1\<close> (added).
\<close>

definition valid_mapping :: "int \<times> int \<Rightarrow> bool" where
  "valid_mapping p =
     (case p of (ol, nl) \<Rightarrow>
        (ol > 0 \<and> nl > 0) \<or> (ol > 0 \<and> nl = - 1) \<or> (ol = - 1 \<and> nl > 0))"

text \<open>The table of zeros, as \<open>map_lines\<close> allocates it.\<close>

definition zero_table :: "nat \<Rightarrow> nat \<Rightarrow> table" where
  "zero_table n m = replicate (n + 1) (replicate (m + 1) 0)"

text \<open>A table of \<open>n + 1\<close> rows of \<open>m + 1\<close> cells.\<close>

definition table_shape :: "nat \<Rightarrow> nat \<Rightarrow> table \<Rightarrow> bool" where
  "table_shape n m dp = (length dp = n + 1 \<and> list_all (\<lambda>row. length row = m + 1) dp)"

text \<open>
  What the backtracking loop has appended to \<open>ops\<close> when it ends, started at \<open>(i, j)\<close>.
\<close>

definition tail_ok :: "nat \<Rightarrow> nat \<Rightarrow> edit_op list \<Rightarrow> bool" where
  "tail_ok i j rest =
     (orig_numbers (map to_mapping (rev rest)) = [1..int i]
      \<and> new_numbers (map to_mapping (rev rest)) = [1..int j]
      \<and> list_all valid_mapping (map to_mapping rest))"

declare backtrack.simps [simp del]
declare strip_block_comments.simps [simp del]

section \<open>The table is filled without an exception\<close>

lemma for_loop_inv:
  assumes "P s"
    and "\<And>k t. k \<in> set ks \<Longrightarrow> P t \<Longrightarrow> \<exists>t'. body k t = Inr t' \<and> P t'"
  shows "\<exists>s'. for_loop ks body s = Inr s' \<and> P s'"
  using assms
proof (induction ks arbitrary: s)
  case Nil
  then show ?case by simp
next
  case (Cons k ks)
  from Cons.prems obtain t where t: "body k s = Inr t" "P t"
    by (meson list.set_intros(1))
  have "\<exists>s'. for_loop ks body t = Inr s' \<and> P s'"
    using t(2) Cons.prems(2) by (intro Cons.IH) auto
  with t(1) show ?case by simp
qed

lemma table_shape_row: "table_shape n m dp \<Longrightarrow> i \<le> n \<Longrightarrow> length (dp ! i) = m + 1"
  by (simp add: table_shape_def list_all_length)

lemma dp_get_shape:
  "table_shape n m dp \<Longrightarrow> i \<le> n \<Longrightarrow> j \<le> m \<Longrightarrow> dp_get dp i j = Inr (dp ! i ! j)"
  by (simp add: dp_get_def py_get_def table_shape_def list_all_length)

lemma dp_set_shape:
  assumes "table_shape n m dp" "i \<le> n" "j \<le> m"
  shows "dp_set dp i j v = Inr (dp[i := (dp ! i)[j := v]]) \<and> table_shape n m (dp[i := (dp ! i)[j := v]])"
  using assms
  by (auto simp: dp_set_def py_get_def py_set_def table_shape_def list_all_length nth_list_update)

lemma dp_cell_shape:
  assumes "table_shape n m dp" "i < n" "j < m" "length new_lines = m"
  shows "\<exists>dp'. dp_cell oi new_lines i j dp = Inr dp' \<and> table_shape n m dp'"
proof -
  have g: "dp_get dp i j = Inr (dp ! i ! j)" "dp_get dp i (j + 1) = Inr (dp ! i ! (j + 1))"
    "dp_get dp (i + 1) j = Inr (dp ! (i + 1) ! j)"
    using assms by (simp_all add: dp_get_shape)
  have s: "\<And>v. \<exists>dp'. dp_set dp (i + 1) (j + 1) v = Inr dp' \<and> table_shape n m dp'"
    using dp_set_shape[OF assms(1), of "i + 1" "j + 1"] assms by auto
  have n: "py_get new_lines j = Inr (new_lines ! j)"
    using assms by (simp add: py_get_def)
  show ?thesis
    unfolding dp_cell_def n using g s by simp
qed

lemma dp_row_shape:
  assumes "table_shape n m dp" "i < n" "length original_lines = n" "length new_lines = m"
  shows "\<exists>dp'. dp_row original_lines new_lines i dp = Inr dp' \<and> table_shape n m dp'"
proof -
  have o: "py_get original_lines i = Inr (original_lines ! i)"
    using assms by (simp add: py_get_def)
  have "\<exists>dp'. for_loop [0..<length new_lines] (dp_cell (original_lines ! i) new_lines i) dp = Inr dp'
      \<and> table_shape n m dp'"
    using assms by (intro for_loop_inv) (auto intro: dp_cell_shape)
  then show ?thesis by (simp add: dp_row_def o)
qed

lemma table_shape_init: "table_shape n m (replicate (n + 1) (replicate (m + 1) 0))"
  by (simp add: table_shape_def list_all_iff)

lemma build_dp_shape:
  "\<exists>dp. build_dp original_lines new_lines = Inr dp
     \<and> table_shape (length original_lines) (length new_lines) dp"
  unfolding build_dp_def Let_def
proof (rule for_loop_inv)
  show "table_shape (length original_lines) (length new_lines)
     (replicate (length original_lines + 1) (replicate (length new_lines + 1) 0))"
    by (rule table_shape_init)
next
  fix k t
  assume "k \<in> set [0..<length original_lines]"
    and "table_shape (length original_lines) (length new_lines) t"
  then show "\<exists>t'. dp_row original_lines new_lines k t = Inr t'
      \<and> table_shape (length original_lines) (length new_lines) t'"
    by (intro dp_row_shape) auto
qed

section \<open>The backtracking loop\<close>

lemma lines_match_total:
  "i \<le> length original_lines \<Longrightarrow> j \<le> length new_lines \<Longrightarrow>
   lines_match original_lines new_lines i j
     = Inr (i > 0 \<and> j > 0 \<and> original_lines ! (i - 1) = new_lines ! (j - 1))"
  by (auto simp: lines_match_def py_get_def)

lemma prefers_insert_total:
  "table_shape n m dp \<Longrightarrow> i \<le> n \<Longrightarrow> j \<le> m \<Longrightarrow>
   prefers_insert dp i j = Inr (j > 0 \<and> (i = 0 \<or> dp ! i ! (j - 1) \<ge> dp ! (i - 1) ! j))"
  by (auto simp: prefers_insert_def dp_get_shape)

lemma upto_snoc_nat: "0 < i \<Longrightarrow> [1..int i - 1] @ [int i] = [1..int i]"
  using upto_rec2[of 1 "int i"] by simp

lemma orig_numbers_snoc:
  "orig_numbers (ms @ [p]) = orig_numbers ms @ (if fst p \<noteq> - 1 then [fst p] else [])"
  by (simp add: orig_numbers_def)

lemma new_numbers_snoc:
  "new_numbers (ms @ [p]) = new_numbers ms @ (if snd p \<noteq> - 1 then [snd p] else [])"
  by (simp add: new_numbers_def)

lemma to_mapping_simps:
  "to_mapping (''match'', a, b) = (a, b)"
  "to_mapping (''ins'', a, b) = (- 1, b)"
  "to_mapping (''del'', a, b) = (a, - 1)"
  by (simp_all add: to_mapping_def)

lemma tail_ok_Nil: "tail_ok 0 0 []"
  by (simp add: tail_ok_def orig_numbers_def new_numbers_def)

lemma tail_ok_match: "tail_ok (i - 1) (j - 1) rest \<Longrightarrow> 0 < i \<Longrightarrow> 0 < j \<Longrightarrow>
  tail_ok i j ((''match'', int i, int j) # rest)"
  by (simp add: tail_ok_def orig_numbers_snoc new_numbers_snoc to_mapping_simps
      upto_snoc_nat valid_mapping_def)

lemma tail_ok_ins: "tail_ok i (j - 1) rest \<Longrightarrow> 0 < j \<Longrightarrow>
  tail_ok i j ((''ins'', - 1, int j) # rest)"
  by (simp add: tail_ok_def orig_numbers_snoc new_numbers_snoc to_mapping_simps
      upto_snoc_nat valid_mapping_def)

lemma tail_ok_del: "tail_ok (i - 1) j rest \<Longrightarrow> 0 < i \<Longrightarrow>
  tail_ok i j ((''del'', int i, - 1) # rest)"
  by (simp add: tail_ok_def orig_numbers_snoc new_numbers_snoc to_mapping_simps
      upto_snoc_nat valid_mapping_def)

lemma backtrack_result:
  "table_shape (length original_lines) (length new_lines) dp \<Longrightarrow>
   i \<le> length original_lines \<Longrightarrow> j \<le> length new_lines \<Longrightarrow>
   \<exists>rest. backtrack dp original_lines new_lines i j ops = Inr (ops @ rest) \<and> tail_ok i j rest"
proof (induction dp original_lines new_lines i j ops rule: backtrack.induct)
  case (1 dp original_lines new_lines i j ops)
  note bt = backtrack.simps[of dp original_lines new_lines i j ops]
  let ?is_match = "i > 0 \<and> j > 0 \<and> original_lines ! (i - 1) = new_lines ! (j - 1)"
  let ?is_ins = "j > 0 \<and> (i = 0 \<or> dp ! i ! (j - 1) \<ge> dp ! (i - 1) ! j)"
  have lm: "lines_match original_lines new_lines i j = Inr ?is_match"
    using "1.prems" by (simp add: lines_match_total)
  have pi: "prefers_insert dp i j = Inr ?is_ins"
    using "1.prems" by (simp add: prefers_insert_total)
  note sh = "1.prems"(1)
  have le: "i - 1 \<le> length original_lines" "j - 1 \<le> length new_lines"
    "i \<le> length original_lines" "j \<le> length new_lines"
    using "1.prems" by simp_all
  show ?case
  proof (cases "i > 0 \<or> j > 0")
    case False
    then have "backtrack dp original_lines new_lines i j ops = Inr (ops @ [])"
      by (subst bt) simp
    moreover from False have "tail_ok i j []"
      using tail_ok_Nil by simp
    ultimately show ?thesis by blast
  next
    case pos: True
    show ?thesis
    proof (cases ?is_match)
      case True
      then obtain rest where
        r: "backtrack dp original_lines new_lines (i - 1) (j - 1) (ops @ [(''match'', int i, int j)])
            = Inr ((ops @ [(''match'', int i, int j)]) @ rest)" "tail_ok (i - 1) (j - 1) rest"
        using "1.IH"(1)[OF pos lm True sh le(1) le(2)] by blast
      have "backtrack dp original_lines new_lines i j ops
          = Inr (ops @ (''match'', int i, int j) # rest)"
        using pos True r(1) by (subst bt) (simp add: lm)
      moreover have "tail_ok i j ((''match'', int i, int j) # rest)"
        using r(2) True by (intro tail_ok_match) auto
      ultimately show ?thesis by blast
    next
      case nomatch: False
      then have lm': "lines_match original_lines new_lines i j = Inr False"
        using lm by simp
      show ?thesis
      proof (cases ?is_ins)
        case True
        then obtain rest where
          r: "backtrack dp original_lines new_lines i (j - 1) (ops @ [(''ins'', - 1, int j)])
              = Inr ((ops @ [(''ins'', - 1, int j)]) @ rest)" "tail_ok i (j - 1) rest"
          using "1.IH"(2)[OF pos lm nomatch pi True sh le(3) le(2)] by blast
        have "backtrack dp original_lines new_lines i j ops
            = Inr (ops @ (''ins'', - 1, int j) # rest)"
          using pos True r(1) by (subst bt) (simp add: lm' pi)
        moreover have "tail_ok i j ((''ins'', - 1, int j) # rest)"
          using r(2) True by (intro tail_ok_ins) auto
        ultimately show ?thesis by blast
      next
        case noins: False
        then have pi': "prefers_insert dp i j = Inr False"
          using pi by simp
        from noins pos have ipos: "i > 0" by auto
        obtain rest where
          r: "backtrack dp original_lines new_lines (i - 1) j (ops @ [(''del'', int i, - 1)])
              = Inr ((ops @ [(''del'', int i, - 1)]) @ rest)" "tail_ok (i - 1) j rest"
          using "1.IH"(3)[OF pos lm nomatch pi noins sh le(1) le(4)] by blast
        have "backtrack dp original_lines new_lines i j ops
            = Inr (ops @ (''del'', int i, - 1) # rest)"
          using pos r(1) by (subst bt) (simp add: lm' pi')
        moreover have "tail_ok i j ((''del'', int i, - 1) # rest)"
          using r(2) ipos by (intro tail_ok_del) auto
        ultimately show ?thesis by blast
      qed
    qed
  qed
qed

lemma map_lines_result:
  "\<exists>ms. map_lines original_lines new_lines = Inr ms
     \<and> orig_numbers ms = [1..int (length original_lines)]
     \<and> new_numbers ms = [1..int (length new_lines)]
     \<and> list_all valid_mapping ms"
proof -
  obtain dp where dp: "build_dp original_lines new_lines = Inr dp"
    "table_shape (length original_lines) (length new_lines) dp"
    using build_dp_shape by blast
  obtain rest where r:
    "backtrack dp original_lines new_lines (length original_lines) (length new_lines) [] = Inr ([] @ rest)"
    "tail_ok (length original_lines) (length new_lines) rest"
    using backtrack_result[OF dp(2) le_refl le_refl] by blast
  have "map_lines original_lines new_lines = Inr (map to_mapping (rev rest))"
    using dp(1) r(1) by (simp add: map_lines_def)
  moreover have "list_all valid_mapping (map to_mapping (rev rest))"
    using r(2) by (simp add: tail_ok_def list_all_iff)
  ultimately show ?thesis
    using r(2) by (simp add: tail_ok_def)
qed

lemma counts_valid:
  "list_all valid_mapping ms \<Longrightarrow>
   matched_count ms + removed_count ms = int (length (orig_numbers ms))
   \<and> matched_count ms + added_count ms = int (length (new_numbers ms))"
  by (induction ms)
    (auto simp: valid_mapping_def matched_count_def removed_count_def added_count_def
      orig_numbers_def new_numbers_def)

section \<open>Lines with nothing in common\<close>

lemma zero_table_nth:
  assumes "a \<le> n" "b \<le> m"
  shows "zero_table n m ! a ! b = 0"
proof -
  have "a < n + 1" "b < m + 1"
    using assms by simp_all
  then show ?thesis
    unfolding zero_table_def by (simp only: nth_replicate)
qed

lemma zero_table_shape: "table_shape n m (zero_table n m)"
  unfolding zero_table_def by (rule table_shape_init)

lemma zero_table_update:
  assumes "a \<le> n" "b \<le> m"
  shows "(zero_table n m)[a := (zero_table n m ! a)[b := 0]] = zero_table n m"
proof -
  have "zero_table n m ! a ! b = 0"
    using assms by (rule zero_table_nth)
  then have "(zero_table n m ! a)[b := 0] = zero_table n m ! a"
    by (metis list_update_id)
  then show ?thesis
    by (metis list_update_id)
qed

lemma dp_cell_zero:
  assumes "i < n" "j < m" "length new_lines = m" "oi \<noteq> new_lines ! j"
  shows "dp_cell oi new_lines i j (zero_table n m) = Inr (zero_table n m)"
proof -
  note sh = zero_table_shape[of n m]
  have g: "dp_get (zero_table n m) i (j + 1) = Inr 0" "dp_get (zero_table n m) (i + 1) j = Inr 0"
    using assms by (simp_all add: dp_get_shape[OF sh] zero_table_nth)
  have s: "dp_set (zero_table n m) (i + 1) (j + 1) 0 = Inr (zero_table n m)"
    using dp_set_shape[OF sh, of "i + 1" "j + 1" 0] assms
    by (simp add: zero_table_update)
  have n: "py_get new_lines j = Inr (new_lines ! j)"
    using assms by (simp add: py_get_def)
  show ?thesis
    unfolding dp_cell_def n using assms(4) g s by simp
qed

lemma dp_row_zero:
  assumes "i < length original_lines" "set original_lines \<inter> set new_lines = {}"
  shows "dp_row original_lines new_lines i (zero_table (length original_lines) (length new_lines))
    = Inr (zero_table (length original_lines) (length new_lines))"
proof -
  let ?Z = "zero_table (length original_lines) (length new_lines)"
  have o: "py_get original_lines i = Inr (original_lines ! i)"
    using assms by (simp add: py_get_def)
  have ne: "original_lines ! i \<noteq> new_lines ! j" if "j < length new_lines" for j
    using assms that by (metis disjoint_iff nth_mem)
  have "\<exists>dp'. for_loop [0..<length new_lines] (dp_cell (original_lines ! i) new_lines i) ?Z = Inr dp'
      \<and> dp' = ?Z"
    using assms(1) ne by (intro for_loop_inv) (auto intro: dp_cell_zero)
  then show ?thesis by (simp add: dp_row_def o)
qed

lemma build_dp_zero:
  assumes "set original_lines \<inter> set new_lines = {}"
  shows "build_dp original_lines new_lines
    = Inr (zero_table (length original_lines) (length new_lines))"
proof -
  let ?Z = "zero_table (length original_lines) (length new_lines)"
  have "\<exists>dp'. for_loop [0..<length original_lines] (dp_row original_lines new_lines) ?Z = Inr dp'
      \<and> dp' = ?Z"
    using assms by (intro for_loop_inv) (auto intro: dp_row_zero)
  then have "for_loop [0..<length original_lines] (dp_row original_lines new_lines) ?Z = Inr ?Z"
    by blast
  then show ?thesis
    unfolding build_dp_def Let_def zero_table_def .
qed

lemma backtrack_zero_del:
  "i \<le> length original_lines \<Longrightarrow>
   backtrack (zero_table (length original_lines) (length new_lines)) original_lines new_lines i 0 ops
     = Inr (ops @ map (\<lambda>k. (''del'', int k, - 1)) (rev [1..<Suc i]))"
proof (induction i arbitrary: ops)
  case 0
  show ?case by (subst backtrack.simps) simp
next
  case (Suc i)
  have lm: "lines_match original_lines new_lines (Suc i) 0 = Inr False"
    by (simp add: lines_match_def)
  have pi: "prefers_insert (zero_table (length original_lines) (length new_lines)) (Suc i) 0 = Inr False"
    by (simp add: prefers_insert_def)
  show ?case
    using Suc.IH[of "ops @ [(''del'', int (Suc i), - 1)]"] Suc.prems
    by (subst backtrack.simps) (simp add: lm pi)
qed

lemma backtrack_zero:
  assumes "set original_lines \<inter> set new_lines = {}" "i \<le> length original_lines"
  shows "j \<le> length new_lines \<Longrightarrow>
   backtrack (zero_table (length original_lines) (length new_lines)) original_lines new_lines i j ops
     = Inr (ops @ map (\<lambda>k. (''ins'', - 1, int k)) (rev [1..<Suc j])
             @ map (\<lambda>k. (''del'', int k, - 1)) (rev [1..<Suc i]))"
proof (induction j arbitrary: ops)
  case 0
  show ?case using backtrack_zero_del[OF assms(2)] by simp
next
  case (Suc j)
  let ?Z = "zero_table (length original_lines) (length new_lines)"
  have ne: "original_lines ! (i - 1) \<noteq> new_lines ! j" if "i > 0"
  proof -
    have "original_lines ! (i - 1) \<in> set original_lines"
      using that assms(2) by (intro nth_mem) simp
    moreover have "new_lines ! j \<in> set new_lines"
      using Suc.prems by (intro nth_mem) simp
    ultimately show ?thesis
      using assms(1) by auto
  qed
  have "lines_match original_lines new_lines i (Suc j)
      = Inr (i > 0 \<and> Suc j > 0 \<and> original_lines ! (i - 1) = new_lines ! (Suc j - 1))"
    using assms(2) Suc.prems by (intro lines_match_total) simp_all
  then have lm: "lines_match original_lines new_lines i (Suc j) = Inr False"
    using ne by auto
  have z: "?Z ! i ! (Suc j - 1) = 0" "?Z ! (i - 1) ! Suc j = 0"
    using assms(2) Suc.prems by (simp_all add: zero_table_nth)
  have "prefers_insert ?Z i (Suc j)
      = Inr (Suc j > 0 \<and> (i = 0 \<or> ?Z ! i ! (Suc j - 1) \<ge> ?Z ! (i - 1) ! Suc j))"
    using assms(2) Suc.prems by (intro prefers_insert_total[OF zero_table_shape]) simp_all
  then have pi: "prefers_insert ?Z i (Suc j) = Inr True"
    by (simp only: z) simp
  have step: "backtrack ?Z original_lines new_lines i (Suc j) ops
      = backtrack ?Z original_lines new_lines i j (ops @ [(''ins'', - 1, int (Suc j))])"
    by (subst backtrack.simps) (simp add: lm pi)
  have "rev [1..<Suc (Suc j)] = Suc j # rev [1..<Suc j]"
    by simp
  then show ?case
    using Suc.IH[of "ops @ [(''ins'', - 1, int (Suc j))]"] Suc.prems
    by (simp only: step) simp
qed

lemma map_int_upt: "map int [1..<Suc n] = [1..int n]"
proof (induction n)
  case 0
  show ?case by simp
next
  case (Suc n)
  have "[1..int (Suc n)] = [1..int n] @ [int (Suc n)]"
    using upto_rec2[of 1 "int (Suc n)"] by simp
  with Suc show ?case by simp
qed

lemma map_lines_disjoint:
  assumes "set original_lines \<inter> set new_lines = {}"
  shows "map_lines original_lines new_lines
    = Inr (map (\<lambda>i. (i, - 1)) [1..int (length original_lines)]
           @ map (\<lambda>j. (- 1, j)) [1..int (length new_lines)])"
proof -
  have "map_lines original_lines new_lines
    = Inr (map (\<lambda>k. (int k, - 1)) [1..<Suc (length original_lines)]
           @ map (\<lambda>k. (- 1, int k)) [1..<Suc (length new_lines)])"
    using build_dp_zero[OF assms] backtrack_zero[OF assms le_refl le_refl, of "[]"]
    by (simp add: map_lines_def rev_map to_mapping_def comp_def del: upt_Suc)
  moreover have "map (\<lambda>k. (int k, - 1 :: int)) [1..<Suc n] = map (\<lambda>i. (i, - 1)) (map int [1..<Suc n])" for n
    by (simp add: comp_def del: upt_Suc)
  moreover have "map (\<lambda>k. (- 1 :: int, int k)) [1..<Suc n] = map (\<lambda>j. (- 1, j)) (map int [1..<Suc n])" for n
    by (simp add: comp_def del: upt_Suc)
  ultimately show ?thesis
    by (simp only: map_int_upt)
qed

section \<open>The claims about map\_lines\<close>

text \<open>
  Claim C1 (partition invariant). For every pair of line lists, \<open>map_lines\<close> returns
  a mapping list in which the original line numbers other than \<open>-1\<close> are exactly
  \<open>1, ..., n\<close>, each once, and the new line numbers other than \<open>-1\<close> are exactly
  \<open>1, ..., m\<close>, each once, where \<open>n\<close> and \<open>m\<close> are the lengths of the two lists.
  The numbers even appear in ascending order.
\<close>

theorem map_lines_partition:
  "\<exists>ms. map_lines original_lines new_lines = Inr ms
     \<and> orig_numbers ms = [1..int (length original_lines)]
     \<and> new_numbers ms = [1..int (length new_lines)]
     \<and> distinct (orig_numbers ms) \<and> set (orig_numbers ms) = {1..int (length original_lines)}
     \<and> distinct (new_numbers ms) \<and> set (new_numbers ms) = {1..int (length new_lines)}"
proof -
  obtain ms where ms: "map_lines original_lines new_lines = Inr ms"
    "orig_numbers ms = [1..int (length original_lines)]"
    "new_numbers ms = [1..int (length new_lines)]"
    using map_lines_result by blast
  then show ?thesis by simp
qed

text \<open>
  Claim C2 (tie-break). In the backtracking loop over the table that \<open>map_lines\<close>
  built, at a state with \<open>i > 0\<close>, \<open>j > 0\<close>, unequal current lines and
  \<open>dp[i][j-1] == dp[i-1][j]\<close>, the loop goes on from \<open>(i, j - 1)\<close> with the Insert
  entry \<open>("ins", -1, j)\<close> appended, and that entry is what the final list holds right
  after the entries emitted so far: an Insert, not a Delete.
\<close>

theorem backtrack_tie_prefers_insert:
  assumes "build_dp original_lines new_lines = Inr dp"
    and "0 < i" "i \<le> length original_lines" "0 < j" "j \<le> length new_lines"
    and "original_lines ! (i - 1) \<noteq> new_lines ! (j - 1)"
    and "dp ! i ! (j - 1) = dp ! (i - 1) ! j"
  shows "backtrack dp original_lines new_lines i j ops
      = backtrack dp original_lines new_lines i (j - 1) (ops @ [(''ins'', - 1, int j)])
    \<and> (\<exists>rest. backtrack dp original_lines new_lines i j ops
          = Inr (ops @ (''ins'', - 1, int j) # rest))"
proof -
  have sh: "table_shape (length original_lines) (length new_lines) dp"
    using build_dp_shape[of original_lines new_lines] assms(1) by simp
  have "lines_match original_lines new_lines i j
      = Inr (i > 0 \<and> j > 0 \<and> original_lines ! (i - 1) = new_lines ! (j - 1))"
    using assms by (intro lines_match_total) simp_all
  then have lm: "lines_match original_lines new_lines i j = Inr False"
    using assms(6) by simp
  have "prefers_insert dp i j = Inr (j > 0 \<and> (i = 0 \<or> dp ! i ! (j - 1) \<ge> dp ! (i - 1) ! j))"
    using assms by (intro prefers_insert_total[OF sh]) simp_all
  then have pi: "prefers_insert dp i j = Inr True"
    using assms(4,7) by simp
  have step: "backtrack dp original_lines new_lines i j ops
      = backtrack dp original_lines new_lines i (j - 1) (ops @ [(''ins'', - 1, int j)])"
    using assms(2) by (subst backtrack.simps) (simp add: lm pi)
  obtain rest where "backtrack dp original_lines new_lines i (j - 1) (ops @ [(''ins'', - 1, int j)])
      = Inr ((ops @ [(''ins'', - 1, int j)]) @ rest)"
    using backtrack_result[OF sh assms(3), of "j - 1"] assms(5) by (meson diff_le_self le_trans)
  with step show ?thesis by simp
qed

theorem backtrack_tie_prefers_insert_witness:
  "build_dp [''a'', ''x''] [''x'', ''a''] = Inr [[0, 0, 0], [0, 0, 1], [0, 1, 1]]
   \<and> backtrack [[0, 0, 0], [0, 0, 1], [0, 1, 1]] [''a'', ''x''] [''x'', ''a''] 2 2 []
       = backtrack [[0, 0, 0], [0, 0, 1], [0, 1, 1]] [''a'', ''x''] [''x'', ''a''] 2 1 [(''ins'', - 1, 2)]
   \<and> backtrack [[0, 0, 0], [0, 0, 1], [0, 1, 1]] [''a'', ''x''] [''x'', ''a''] 2 2 []
       = Inr [(''ins'', - 1, 2), (''match'', 2, 1), (''del'', 1, - 1)]
   \<and> map_lines [''a'', ''x''] [''x'', ''a''] = Inr [(1, - 1), (2, 1), (- 1, 2)]"
proof -
  have b: "build_dp [''a'', ''x''] [''x'', ''a''] = Inr [[0, 0, 0], [0, 0, 1], [0, 1, 1]]"
    by code_simp
  have r: "backtrack [[0, 0, 0], [0, 0, 1], [0, 1, 1]] [''a'', ''x''] [''x'', ''a''] 2 2 []
       = Inr [(''ins'', - 1, 2), (''match'', 2, 1), (''del'', 1, - 1)]"
    by code_simp
  have m: "map_lines [''a'', ''x''] [''x'', ''a''] = Inr [(1, - 1), (2, 1), (- 1, 2)]"
    by code_simp
  have "backtrack [[0, 0, 0], [0, 0, 1], [0, 1, 1]] [''a'', ''x''] [''x'', ''a''] 2 2 []
       = backtrack [[0, 0, 0], [0, 0, 1], [0, 1, 1]] [''a'', ''x''] [''x'', ''a''] 2 (2 - 1)
           ([] @ [(''ins'', - 1, int 2)])"
    using backtrack_tie_prefers_insert[OF b, of 2 2 "[]"] by simp
  then show ?thesis using b r m by simp
qed

text \<open>
  Claim C3 (end-to-end scenario). \<open>map_lines(["A","B","C"], ["A","C","D"])\<close> is
  \<open>[(1,1), (2,-1), (3,2), (-1,3)]\<close>, and its counts are matched 2, removed 1, added 1.
\<close>

theorem map_lines_end_to_end:
  "map_lines [''A'', ''B'', ''C''] [''A'', ''C'', ''D'']
     = Inr [(1, 1), (2, - 1), (3, 2), (- 1, 3)]
   \<and> matched_count [(1, 1), (2, - 1), (3, 2), (- 1, 3)] = 2
   \<and> removed_count [(1, 1), (2, - 1), (3, 2), (- 1, 3)] = 1
   \<and> added_count [(1, 1), (2, - 1), (3, 2), (- 1, 3)] = 1"
  by code_simp

text \<open>
  Claim C4 (totality). \<open>map_lines\<close> returns a mapping list for every pair of line
  lists: no access of it raises. With an empty original the result is one Insert per new
  line, with an empty new list one Delete per original line; in particular
  \<open>map_lines([], ["X","Y"]) = [(-1,1), (-1,2)]\<close> and \<open>map_lines(["X"], []) = [(1,-1)]\<close>.
\<close>

theorem map_lines_total:
  "(\<exists>ms. map_lines original_lines new_lines = Inr ms)
   \<and> map_lines [] lines_a = Inr (map (\<lambda>j. (- 1, j)) [1..int (length lines_a)])
   \<and> map_lines lines_b [] = Inr (map (\<lambda>i. (i, - 1)) [1..int (length lines_b)])
   \<and> map_lines [] [''X'', ''Y''] = Inr [(- 1, 1), (- 1, 2)]
   \<and> map_lines [''X''] [] = Inr [(1, - 1)]"
proof -
  have "\<exists>ms. map_lines original_lines new_lines = Inr ms"
    using map_lines_result by blast
  moreover have "map_lines [] lines_a = Inr (map (\<lambda>j. (- 1, j)) [1..int (length lines_a)])"
    using map_lines_disjoint[of "[]" lines_a] by simp
  moreover have "map_lines lines_b [] = Inr (map (\<lambda>i. (i, - 1)) [1..int (length lines_b)])"
    using map_lines_disjoint[of lines_b "[]"] by simp
  moreover have "map_lines [] [''X'', ''Y''] = Inr [(- 1, 1), (- 1, 2)]"
    by code_simp
  moreover have "map_lines [''X''] [] = Inr [(1, - 1)]"
    by code_simp
  ultimately show ?thesis by blast
qed

text \<open>
  Claim C5 (total replacement). When no line of the original equals a line of the new
  list, the result of \<open>map_lines\<close> has no pair with both sides positive; its pairs with
  new side \<open>-1\<close> are \<open>(1,-1), ..., (n,-1)\<close> in this order and its pairs with original
  side \<open>-1\<close> are \<open>(-1,1), ..., (-1,m)\<close> in this order. The result is the first of these
  lists followed by the second.
\<close>

theorem map_lines_total_replacement:
  assumes "set original_lines \<inter> set new_lines = {}"
  shows "\<exists>ms. map_lines original_lines new_lines = Inr ms
    \<and> ms = map (\<lambda>i. (i, - 1)) [1..int (length original_lines)]
           @ map (\<lambda>j. (- 1, j)) [1..int (length new_lines)]
    \<and> filter (\<lambda>(ol, nl). ol > 0 \<and> nl > 0) ms = []
    \<and> filter (\<lambda>(ol, nl). nl = - 1) ms = map (\<lambda>i. (i, - 1)) [1..int (length original_lines)]
    \<and> filter (\<lambda>(ol, nl). ol = - 1) ms = map (\<lambda>j. (- 1, j)) [1..int (length new_lines)]"
proof -
  let ?dels = "map (\<lambda>i. (i, - 1 :: int)) [1..int (length original_lines)]"
  let ?inss = "map (\<lambda>j. (- 1 :: int, j)) [1..int (length new_lines)]"
  have m: "map_lines original_lines new_lines = Inr (?dels @ ?inss)"
    using assms by (rule map_lines_disjoint)
  have d: "filter (\<lambda>(ol, nl). ol > 0 \<and> nl > 0) ?dels = []"
    "filter (\<lambda>(ol, nl). nl = - 1) ?dels = ?dels"
    "filter (\<lambda>(ol, nl). ol = - 1) ?dels = []"
    by (auto simp: filter_empty_conv filter_id_conv)
  have i: "filter (\<lambda>(ol, nl). ol > 0 \<and> nl > 0) ?inss = []"
    "filter (\<lambda>(ol, nl). nl = - 1) ?inss = []"
    "filter (\<lambda>(ol, nl). ol = - 1) ?inss = ?inss"
    by (auto simp: filter_empty_conv filter_id_conv)
  show ?thesis
    using m d i by (simp only: filter_append) simp
qed

theorem map_lines_total_replacement_witness:
  "set [''a'', ''b''] \<inter> set [''x'', ''y'', ''z''] = {}
   \<and> map_lines [''a'', ''b''] [''x'', ''y'', ''z'']
       = Inr [(1, - 1), (2, - 1), (- 1, 1), (- 1, 2), (- 1, 3)]"
proof -
  have h: "set [''a'', ''b''] \<inter> set [''x'', ''y'', ''z''] = {}"
    by simp
  have u: "[1..2] = [1, 2 :: int]" "[1..3] = [1, 2, 3 :: int]"
    by (simp_all add: upto.simps)
  show ?thesis
    using h map_lines_total_replacement[OF h] by (simp add: u)
qed

text \<open>
  Claim C6 (count consistency). For the mapping list that \<open>map_lines\<close> returns, the
  counts of \<open>main\<close> satisfy \<open>matched + removed = n\<close> and \<open>matched + added = m\<close>.
\<close>

theorem map_lines_count_consistency:
  "\<exists>ms. map_lines original_lines new_lines = Inr ms
     \<and> matched_count ms + removed_count ms = int (length original_lines)
     \<and> matched_count ms + added_count ms = int (length new_lines)"
proof -
  obtain ms where ms: "map_lines original_lines new_lines = Inr ms"
    "orig_numbers ms = [1..int (length original_lines)]"
    "new_numbers ms = [1..int (length new_lines)]"
    "list_all valid_mapping ms"
    using map_lines_result by blast
  from counts_valid[OF ms(4)] ms(2,3)
  have "matched_count ms + removed_count ms = int (length original_lines)"
    "matched_count ms + added_count ms = int (length new_lines)"
    by simp_all
  with ms(1) show ?thesis by blast
qed

section \<open>The claims about main\<close>

text \<open>
  Claim C8 (sanitization scenario). For the run name \<open>Test/One:2\<close> the sanitized
  name is \<open>Test_One_2\<close>, each character that is neither alphanumeric nor \<open>-\<close> nor
  \<open>_\<close> replaced by \<open>_\<close>, and the output file name is \<open>Test_One_2.xml\<close>; an
  empty sanitized name falls back to \<open>TEST\<close>.
\<close>

theorem output_filename_sanitized:
  "safe_test ''Test/One:2'' = ''Test_One_2''
   \<and> output_filename ''Test/One:2'' = ''Test_One_2.xml''
   \<and> safe_test [] = ''TEST''"
  by (simp add: output_filename_def safe_test_def isalnum_def)

text \<open>
  Claim C9 (the earlier version). For every pair of line lists, \<open>map_lines\<close> of
  \<open>appVersion2.py\<close> fills the table without an exception and returns \<open>None\<close>, never
  a mapping list; the round of \<open>main\<close> that iterates this result raises TypeError.
\<close>

theorem map_lines_v2_returns_none: "map_lines_v2 original_lines new_lines = Inr PyNone
  \<and> version_step_v2 original_lines new_lines = Inl TypeError"
proof -
  obtain dp where "build_dp original_lines new_lines = Inr dp"
    using build_dp_shape by blast
  then have "map_lines_v2 original_lines new_lines = Inr PyNone"
    by (simp add: map_lines_v2_def)
  then show ?thesis
    by (simp add: version_step_v2_def matched_v2_def)
qed

section \<open>Occurrences of a substring\<close>

text \<open>\<open>sub\<close> occurs in \<open>s\<close> at index \<open>k\<close>.\<close>

definition occurs_at :: "string \<Rightarrow> string \<Rightarrow> nat \<Rightarrow> bool" where
  "occurs_at sub s k = (take (length sub) (drop k s) = sub)"

lemma occurs_at_Suc: "occurs_at sub (c # cs) (Suc k) = occurs_at sub cs k"
  by (simp add: occurs_at_def)

lemma occurs_at_bound: "occurs_at sub s k \<Longrightarrow> sub \<noteq> [] \<Longrightarrow> k + length sub \<le> length s"
proof -
  assume a: "occurs_at sub s k" and ne: "sub \<noteq> []"
  then have "length (take (length sub) (drop k s)) = length sub"
    by (simp add: occurs_at_def)
  then have "length sub \<le> length s - k"
    by simp
  moreover have "k < length s"
  proof (rule ccontr)
    assume "\<not> k < length s"
    then have "drop k s = []" by simp
    with a ne show False by (simp add: occurs_at_def)
  qed
  ultimately show ?thesis by simp
qed

lemma find_sub_Some:
  "find_sub sub s = Some k \<Longrightarrow> occurs_at sub s k \<and> (\<forall>k' < k. \<not> occurs_at sub s k')"
proof (induction s arbitrary: k)
  case Nil
  then show ?case by (simp add: occurs_at_def split: if_splits)
next
  case (Cons c cs)
  show ?case
  proof (cases "take (length sub) (c # cs) = sub")
    case True
    with Cons.prems show ?thesis by (simp add: occurs_at_def)
  next
    case False
    with Cons.prems obtain k0 where k0: "find_sub sub cs = Some k0" "k = Suc k0"
      by auto
    from Cons.IH[OF k0(1)] have ih: "occurs_at sub cs k0" "\<And>k'. k' < k0 \<Longrightarrow> \<not> occurs_at sub cs k'"
      by simp_all
    have "\<not> occurs_at sub (c # cs) k'" if "k' < k" for k'
    proof (cases k')
      case 0
      with False show ?thesis by (simp add: occurs_at_def)
    next
      case (Suc m)
      with that k0(2) ih(2)[of m] show ?thesis by (simp add: occurs_at_Suc)
    qed
    with ih(1) k0(2) show ?thesis by (simp add: occurs_at_Suc)
  qed
qed

lemma find_sub_None: "find_sub sub s = None \<Longrightarrow> \<not> occurs_at sub s k"
proof (induction s arbitrary: k)
  case Nil
  then show ?case by (auto simp: occurs_at_def split: if_splits)
next
  case (Cons c cs)
  from Cons.prems have np: "take (length sub) (c # cs) \<noteq> sub" and n: "find_sub sub cs = None"
    by (auto split: if_splits)
  show ?case
  proof (cases k)
    case 0
    with np show ?thesis by (simp add: occurs_at_def)
  next
    case (Suc m)
    with Cons.IH[OF n, of m] show ?thesis by (simp add: occurs_at_Suc)
  qed
qed

lemma str_in_iff: "str_in sub s \<longleftrightarrow> (\<exists>k. occurs_at sub s k)"
proof
  assume "str_in sub s"
  then obtain k where "find_sub sub s = Some k"
    by (auto simp: str_in_def)
  then show "\<exists>k. occurs_at sub s k"
    using find_sub_Some by blast
next
  assume "\<exists>k. occurs_at sub s k"
  then show "str_in sub s"
    unfolding str_in_def using find_sub_None by blast
qed

lemma occurs_at_drop: "occurs_at sub (drop start s) k = occurs_at sub s (start + k)"
  by (simp add: occurs_at_def add.commute)

lemma str_find_Some:
  assumes "str_find sub s start = Some k"
  shows "start \<le> k \<and> occurs_at sub s k
    \<and> (\<forall>k'. start \<le> k' \<and> k' < k \<longrightarrow> \<not> occurs_at sub s k')"
proof -
  from assms obtain d where d: "find_sub sub (drop start s) = Some d" "k = start + d"
    by (auto simp: str_find_def split: if_splits)
  from find_sub_Some[OF d(1)] have o: "occurs_at sub s (start + d)"
    and m: "\<And>d'. d' < d \<Longrightarrow> \<not> occurs_at sub s (start + d')"
    by (simp_all add: occurs_at_drop)
  have "\<not> occurs_at sub s k'" if "start \<le> k'" "k' < k" for k'
    using m[of "k' - start"] that d(2) by simp
  with o d(2) show ?thesis by simp
qed

lemma str_find_None:
  assumes "str_find sub s start = None" "start \<le> length s" "start \<le> k"
  shows "\<not> occurs_at sub s k"
proof -
  from assms have "find_sub sub (drop start s) = None"
    by (simp add: str_find_def)
  from find_sub_None[OF this, of "k - start"] assms(3) show ?thesis
    by (simp add: occurs_at_drop)
qed

lemma find_open_defined:
  assumes "str_in sub line"
  shows "\<exists>k. str_find sub line 0 = Some k"
  using assms by (simp add: str_in_def str_find_def)

section \<open>What the comment loop leaves\<close>

text \<open>
  A line still has a span to remove when a \<open>/*\<close> is followed, two characters later or
  more, by a \<open>*/\<close>.
\<close>

definition removable :: "string \<Rightarrow> bool" where
  "removable s = (\<exists>a c. occurs_at ''/*'' s a \<and> occurs_at ''*/'' s c \<and> a + 2 \<le> c)"

lemma strip_block_comments_fixed:
  assumes "\<not> removable s"
  shows "strip_block_comments s = s"
proof -
  have "False" if "str_find ''/*'' s 0 = Some a" "str_find ''*/'' s (a + 2) = Some e" for a e
  proof -
    from str_find_Some[OF that(1)] have "occurs_at ''/*'' s a" by simp
    moreover from str_find_Some[OF that(2)] have "a + 2 \<le> e" "occurs_at ''*/'' s e" by simp_all
    ultimately show False using assms unfolding removable_def by blast
  qed
  then show ?thesis
    by (subst strip_block_comments.simps) (auto split: option.splits)
qed

lemma strip_block_comments_not_removable: "\<not> removable (strip_block_comments s)"
proof (induction s rule: strip_block_comments.induct)
  case (1 line)
  note unfold = strip_block_comments.simps[of line]
  show ?case
  proof (cases "str_in ''/*'' line \<and> str_in ''*/'' line")
    case False
    then have "\<not> removable line"
      unfolding removable_def str_in_iff by blast
    moreover have "strip_block_comments line = line"
      by (subst unfold) (simp only: False if_False)
    ultimately show ?thesis by simp
  next
    case both: True
    show ?thesis
    proof (cases "str_find ''/*'' line 0")
      case None
      then have "\<not> occurs_at ''/*'' line a" for a
        by (intro str_find_None[of "''/*''" line 0]) simp_all
      then have "\<not> removable line"
        unfolding removable_def by blast
      moreover from both None have "strip_block_comments line = line"
        by (subst unfold) simp
      ultimately show ?thesis by simp
    next
      case (Some start)
      from str_find_Some[OF Some] have st: "occurs_at ''/*'' line start"
        and first: "\<And>k. k < start \<Longrightarrow> \<not> occurs_at ''/*'' line k"
        by simp_all
      show ?thesis
      proof (cases "str_find ''*/'' line (start + 2)")
        case None
        have len: "start + 2 \<le> length line"
          using occurs_at_bound[OF st] by simp
        have "\<not> removable line"
        proof
          assume "removable line"
          then obtain a c where ac: "occurs_at ''/*'' line a" "occurs_at ''*/'' line c" "a + 2 \<le> c"
            unfolding removable_def by blast
          from ac(1) first have "start \<le> a"
            by (meson not_le)
          with ac(3) have "start + 2 \<le> c" by simp
          from str_find_None[OF None len this] ac(2) show False by simp
        qed
        moreover from both Some None have "strip_block_comments line = line"
          by (subst unfold) simp
        ultimately show ?thesis by simp
      next
        case e: (Some e)
        from both Some e have "strip_block_comments line
            = strip_block_comments (take start line @ drop (e + 2) line)"
          by (subst unfold) simp
        with "1.IH"[OF both Some e] show ?thesis by simp
      qed
    qed
  qed
qed

lemma occurs_at_embed:
  assumes "occurs_at sub s k"
  shows "occurs_at sub (pre @ s @ post) (length pre + k)"
proof -
  from assms have t: "take (length sub) (drop k s) = sub"
    by (simp add: occurs_at_def)
  then have "length (take (length sub) (drop k s)) = length sub"
    by simp
  then have "length sub \<le> length (drop k s)"
    by (simp only: length_take)
  then have "take (length sub) (drop k s @ post) = take (length sub) (drop k s)"
    by simp
  moreover have "drop (length pre + k) (pre @ s @ post) = drop k s @ drop (k - length s) post"
    by (simp add: drop_append)
  moreover have "take (length sub) (drop k s @ drop (k - length s) post) = take (length sub) (drop k s)"
    using \<open>length sub \<le> length (drop k s)\<close> by simp
  ultimately show ?thesis
    using t by (simp add: occurs_at_def)
qed

lemma str_in_embed: "str_in sub s \<Longrightarrow> str_in sub (pre @ s @ post)"
  unfolding str_in_iff using occurs_at_embed by blast

lemma removable_embed:
  assumes "removable s"
  shows "removable (pre @ s @ post)"
proof -
  from assms obtain a c where "occurs_at ''/*'' s a" "occurs_at ''*/'' s c" "a + 2 \<le> c"
    unfolding removable_def by blast
  then have "occurs_at ''/*'' (pre @ s @ post) (length pre + a)"
    "occurs_at ''*/'' (pre @ s @ post) (length pre + c)" "(length pre + a) + 2 \<le> length pre + c"
    by (simp_all add: occurs_at_embed)
  then show ?thesis
    unfolding removable_def by blast
qed

lemma rev_dropWhile_split: "xs = rev (dropWhile P (rev xs)) @ rev (takeWhile P (rev xs))"
proof -
  have "rev (rev xs) = rev (takeWhile P (rev xs) @ dropWhile P (rev xs))"
    by (simp only: takeWhile_dropWhile_id)
  then show ?thesis
    by (simp only: rev_append rev_rev_ident)
qed

lemma str_strip_suffix:
  "dropWhile isspace s = str_strip s @ rev (takeWhile isspace (rev (dropWhile isspace s)))"
  unfolding str_strip_def by (rule rev_dropWhile_split)

lemma str_strip_embed: "\<exists>pre post. s = pre @ str_strip s @ post"
proof -
  have "s = takeWhile isspace s @ dropWhile isspace s"
    by simp
  then have "s = takeWhile isspace s @ str_strip s
      @ rev (takeWhile isspace (rev (dropWhile isspace s)))"
    using str_strip_suffix[of s] by simp
  then show ?thesis by blast
qed

lemma str_strip_idem: "str_strip (str_strip s) = str_strip s"
proof -
  let ?u = "dropWhile isspace s"
  let ?t = "str_strip s"
  have u: "?u = ?t @ rev (takeWhile isspace (rev ?u))"
    by (rule str_strip_suffix)
  have "dropWhile isspace ?t = ?t"
  proof (cases "?t = []")
    case True
    then show ?thesis by simp
  next
    case False
    then have "hd ?t = hd ?u"
      using u by (metis hd_append2)
    moreover from False u have "?u \<noteq> []"
      by (metis append_is_Nil_conv)
    ultimately have "\<not> isspace (hd ?t)"
      using hd_dropWhile[of isspace s] by simp
    with False show ?thesis
      by (simp add: dropWhile_eq_self_iff)
  qed
  then have "str_strip ?t = rev (dropWhile isspace (rev ?t))"
    by (simp add: str_strip_def[of ?t])
  also have "rev ?t = dropWhile isspace (rev ?u)"
    by (simp add: str_strip_def)
  also have "rev (dropWhile isspace (dropWhile isspace (rev ?u))) = ?t"
    by (simp add: str_strip_def)
  finally show ?thesis .
qed

lemma occurs_at_pair:
  "occurs_at [a, b] s k \<longleftrightarrow> Suc k < length s \<and> s ! k = a \<and> s ! Suc k = b"
proof
  assume o: "occurs_at [a, b] s k"
  then have len: "Suc k < length s"
    using occurs_at_bound[OF o] by simp
  then have "drop k s = s ! k # s ! Suc k # drop (Suc (Suc k)) s"
    by (metis Cons_nth_drop_Suc Suc_lessD)
  with o have "s ! k = a" "s ! Suc k = b"
    by (simp_all add: occurs_at_def)
  with len show "Suc k < length s \<and> s ! k = a \<and> s ! Suc k = b"
    by simp
next
  assume r: "Suc k < length s \<and> s ! k = a \<and> s ! Suc k = b"
  then have "drop k s = a # b # drop (Suc (Suc k)) s"
    by (metis Cons_nth_drop_Suc Suc_lessD)
  then show "occurs_at [a, b] s k"
    by (simp add: occurs_at_def)
qed

lemma split_head_no_sep:
  assumes "sep \<noteq> []"
  shows "\<not> str_in sep (split_head sep line) \<or> \<not> str_in sep line"
proof (cases "find_sub sep line")
  case None
  then show ?thesis by (simp add: str_in_def)
next
  case (Some k)
  from find_sub_Some[OF Some] have first: "\<And>k'. k' < k \<Longrightarrow> \<not> occurs_at sep line k'"
    by simp
  have "\<not> occurs_at sep (take k line) k'" for k'
  proof
    assume o: "occurs_at sep (take k line) k'"
    from occurs_at_bound[OF o assms] have b: "k' + length sep \<le> k"
      by simp
    then have "take (length sep) (drop k' (take k line)) = take (length sep) (drop k' line)"
      by (simp add: drop_take min_def)
    with o have "occurs_at sep line k'"
      by (simp add: occurs_at_def)
    moreover from b assms have "k' < k"
      by (cases sep) simp_all
    ultimately show False using first by blast
  qed
  then show ?thesis
    by (simp add: split_head_def Some str_in_iff)
qed

lemma remove_span_no_slashes:
  assumes "occurs_at ''/*'' s start" "start + 2 \<le> e" "e + 2 \<le> length s"
    and "\<not> str_in ''//'' s"
  shows "\<not> str_in ''//'' (take start s @ drop (e + 2) s)"
proof
  let ?t = "take start s @ drop (e + 2) s"
  assume "str_in ''//'' ?t"
  then obtain k where "occurs_at ''//'' ?t k"
    unfolding str_in_iff by blast
  then have k: "Suc k < length ?t" "?t ! k = CHR ''/''" "?t ! Suc k = CHR ''/''"
    by (simp_all add: occurs_at_pair)
  from assms(1) have st: "Suc start < length s" "s ! start = CHR ''/''"
    by (simp_all add: occurs_at_pair)
  have no: "\<not> (Suc i < length s \<and> s ! i = CHR ''/'' \<and> s ! Suc i = CHR ''/'')" for i
    using assms(4) occurs_at_pair[of "CHR ''/''" "CHR ''/''" s i] unfolding str_in_iff by blast
  have lt: "length (take start s) = start"
    using st(1) by simp
  consider "Suc k < start" | "Suc k = start" | "start \<le> k"
    by linarith
  then show False
  proof cases
    case 1
    then have "?t ! k = s ! k" "?t ! Suc k = s ! Suc k"
      using st(1) by (simp_all add: nth_append)
    with k no[of k] 1 st(1) show False by simp
  next
    case 2
    then have "?t ! k = s ! k"
      using st(1) by (simp add: nth_append)
    with k(2) st 2 no[of k] show False by simp
  next
    case 3
    define p where "p = e + 2 + (k - start)"
    have "?t ! k = s ! p"
      using 3 assms(3) st(1) by (simp add: nth_append p_def)
    moreover have "?t ! Suc k = s ! Suc p"
    proof -
      have "Suc k - start = Suc (k - start)"
        using 3 by simp
      then show ?thesis
        using 3 assms(3) st(1) by (simp add: nth_append p_def)
    qed
    moreover have "Suc p < length s"
      using k(1) 3 assms(2,3) st(1) by (simp add: p_def)
    ultimately have "Suc p < length s \<and> s ! p = CHR ''/'' \<and> s ! Suc p = CHR ''/''"
      using k(2,3) by simp
    with no[of p] show False by blast
  qed
qed

lemma strip_block_comments_no_slashes:
  "\<not> str_in ''//'' s \<Longrightarrow> \<not> str_in ''//'' (strip_block_comments s)"
proof (induction s rule: strip_block_comments.induct)
  case (1 line)
  note unfold = strip_block_comments.simps[of line]
  show ?case
  proof (cases "str_in ''/*'' line \<and> str_in ''*/'' line")
    case False
    have "strip_block_comments line = line"
      by (subst unfold) (simp only: False if_False)
    with "1.prems" show ?thesis by simp
  next
    case both: True
    show ?thesis
    proof (cases "str_find ''/*'' line 0")
      case None
      with both have "strip_block_comments line = line"
        by (subst unfold) simp
      with "1.prems" show ?thesis by simp
    next
      case (Some start)
      show ?thesis
      proof (cases "str_find ''*/'' line (start + 2)")
        case None
        with both Some have "strip_block_comments line = line"
          by (subst unfold) simp
        with "1.prems" show ?thesis by simp
      next
        case e: (Some e)
        from str_find_Some[OF Some] have st: "occurs_at ''/*'' line start"
          by simp
        from str_find_bound[OF e] have b: "start + 2 \<le> e" "e + 2 \<le> length line"
          by simp_all
        have "\<not> str_in ''//'' (take start line @ drop (e + 2) line)"
          using st b "1.prems" by (rule remove_span_no_slashes)
        then have "\<not> str_in ''//'' (strip_block_comments (take start line @ drop (e + 2) line))"
          by (rule "1.IH"[OF both Some e])
        moreover from both Some e have "strip_block_comments line
            = strip_block_comments (take start line @ drop (e + 2) line)"
          by (subst unfold) simp
        ultimately show ?thesis by simp
      qed
    qed
  qed
qed

section \<open>The claims about normalize\_line\<close>

text \<open>
  Claim C7 as stated (comment and whitespace insensitivity): the line
  \<open>"int" /* comment */\<close> and the line \<open>int\<close> normalize to the same string and align
  as a Match. It fails: \<open>normalize_line\<close> keeps the two quote characters, so the first
  line normalizes to \<open>"int"\<close> and the second to \<open>int\<close>, and \<open>map_lines\<close> on the two
  normalized lines gives a Delete and an Insert.
\<close>

theorem normalize_line_quotes_counterexample:
  "normalize_line ''\"int\" /* comment */'' = ''\"int\"''
   \<and> normalize_line ''int'' = ''int''
   \<and> normalize_line ''\"int\" /* comment */'' \<noteq> normalize_line ''int''
   \<and> map_lines [normalize_line ''\"int\" /* comment */''] [normalize_line ''int'']
       = Inr [(1, - 1), (- 1, 1)]"
  by code_simp

text \<open>
  Claim C7 as amended: the line \<open>"int" /* comment */\<close> and the line \<open>"int"\<close>
  normalize to the same string and align as the Match \<open>(1, 1)\<close>; so do the line
  \<open>int /* comment */\<close> and the line \<open>int\<close> with blanks around it. This is the example of
  the docstring of \<open>normalize_line\<close>, where both lines carry the quotes.
\<close>

theorem normalize_line_comment_insensitive:
  "normalize_line ''\"int\" /* comment */'' = normalize_line ''\"int\"''
   \<and> map_lines [normalize_line ''\"int\" /* comment */''] [normalize_line ''\"int\"'']
       = Inr [(1, 1)]
   \<and> normalize_line ''int /* comment */'' = normalize_line ''  int  ''
   \<and> map_lines [normalize_line ''int /* comment */''] [normalize_line ''  int  '']
       = Inr [(1, 1)]"
  by code_simp

text \<open>
  Claim C10 (idempotence). Normalizing a normalized line changes nothing:
  \<open>normalize_line(normalize_line(s)) == normalize_line(s)\<close> for every string \<open>s\<close>.
\<close>

theorem normalize_line_idempotent: "normalize_line (normalize_line s) = normalize_line s"
proof -
  define line1 where "line1 = (if str_in ''//'' s then split_head ''//'' s else s)"
  define L where "L = strip_block_comments line1"
  define R where "R = str_strip L"
  have n: "normalize_line s = R"
    by (simp add: normalize_line_def line1_def L_def R_def)
  have "\<not> str_in ''//'' line1"
    using split_head_no_sep[of "''//''" s] by (auto simp: line1_def)
  then have "\<not> str_in ''//'' L"
    unfolding L_def by (rule strip_block_comments_no_slashes)
  obtain pre post where emb: "L = pre @ R @ post"
    unfolding R_def using str_strip_embed by blast
  have ns: "\<not> str_in ''//'' R"
    using \<open>\<not> str_in ''//'' L\<close> str_in_embed[of "''//''" R pre post] emb by auto
  have "\<not> removable L"
    unfolding L_def by (rule strip_block_comments_not_removable)
  then have "\<not> removable R"
    using removable_embed[of R pre post] emb by auto
  then have fx: "strip_block_comments R = R"
    by (rule strip_block_comments_fixed)
  have "normalize_line R = str_strip (strip_block_comments R)"
    using ns by (simp add: normalize_line_def)
  also have "\<dots> = str_strip R"
    by (simp only: fx)
  also have "\<dots> = R"
    unfolding R_def by (rule str_strip_idem)
  finally show ?thesis
    by (simp only: n)
qed

end
